theory Spec2Isabelle
  imports Main "HOL-Library.Word"
begin

unbundle bit_operations_syntax

section \<open>The restart supervisor of cmd/vgpu/main.go\<close>

text \<open>
  The function \<^verbatim>\<open>start()\<close> of \<^verbatim>\<open>cmd/vgpu/main.go\<close> is embedded as a function from
  an environment (what the collaborators answer) and a schedule (which case of the
  \<^verbatim>\<open>select\<close> fires, in order) to the trace of calls and log lines the function makes
  and the way it ends.  The schedule is a finite prefix of what happens to the process;
  when it is used up the supervisor is still waiting in the \<^verbatim>\<open>select\<close>.
\<close>

subsection \<open>Constants of the libraries\<close>

text \<open>\<^verbatim>\<open>syscall.Signal\<close> is an integer; the four signals handed to \<^verbatim>\<open>NewOSWatcher\<close>.\<close>

type_synonym signal = nat

definition SIGHUP :: signal where "SIGHUP = 1"
definition SIGINT :: signal where "SIGINT = 2"
definition SIGQUIT :: signal where "SIGQUIT = 3"
definition SIGTERM :: signal where "SIGTERM = 15"

text \<open>\<^verbatim>\<open>fsnotify.Op\<close> is a \<^verbatim>\<open>uint32\<close> bit mask, \<^verbatim>\<open>Create = 1 << 0\<close>, \<^verbatim>\<open>Write = 1 << 1\<close>.\<close>

definition Create :: "32 word" where "Create = 1"
definition Write :: "32 word" where "Write = 2"

text \<open>\<^verbatim>\<open>pluginapi.DevicePluginPath\<close> and \<^verbatim>\<open>pluginapi.KubeletSocket\<close>.\<close>

definition DevicePluginPath :: string where
  "DevicePluginPath = ''/var/lib/kubelet/device-plugins/''"

definition KubeletSocket :: string where
  "KubeletSocket = ''/var/lib/kubelet/device-plugins/kubelet.sock''"

text \<open>\<^verbatim>\<open>nvml.Return\<close> is an integer, \<^verbatim>\<open>nvml.SUCCESS = 0\<close>.\<close>

definition SUCCESS :: int where "SUCCESS = 0"

subsection \<open>Data\<close>

text \<open>\<^verbatim>\<open>fsnotify.Event\<close>: a path and an operation mask.\<close>

record Event =
  Name :: string
  Op :: "32 word"

text \<open>
  A plugin endpoint as the supervisor sees it: \<open>ident\<close> is the identity of the object
  (the cycle whose \<^verbatim>\<open>GetPlugins\<close> call built it, and its position in the slice returned),
  \<open>Devices\<close> is what \<^verbatim>\<open>p.Devices()\<close> returns and \<open>StartErr\<close> what \<^verbatim>\<open>p.Start()\<close> returns
  (\<open>None\<close> is \<^verbatim>\<open>nil\<close>).
\<close>

record plugin =
  ident :: "nat \<times> nat"
  Devices :: "nat list"
  StartErr :: "string option"

text \<open>The three \<^verbatim>\<open>fmt.Errorf\<close> of \<^verbatim>\<open>start\<close>.\<close>

datatype error =
    InitNVMLFailed int
  | FSWatcherFailed string
  | MigStrategyFailed string

text \<open>The argument of a formatted log line.\<close>

datatype logarg = ARet int | AStr string | ASig signal

text \<open>What \<^verbatim>\<open>start\<close> does that can be seen from outside: calls on collaborators and log lines.\<close>

datatype action =
    GoPprof
  | Log string
  | Logf string logarg
  | NvmlInit
  | NvmlShutdown
  | NewFSWatcher string
  | WatcherClose
  | NewOSWatcher "signal list"
  | LoadNvidiaConfig
  | NewDeviceCache
  | CacheStart
  | CacheStop
  | NewDeviceRegister
  | RegisterStart
  | RegisterStop
  | PluginStop "nat \<times> nat"
  | NewMigStrategy string
  | GetPlugins nat
  | MakePluginStartError nat
  | DevicesOf "nat \<times> nat"
  | PluginStart "nat \<times> nat" bool
  | ClosePluginStartError nat

text \<open>
  The answers of the collaborators.  \<open>newMigStrategy c\<close> is the error of the call of
  \<^verbatim>\<open>NewMigStrategy(migStrategyFlag)\<close> in cycle \<open>c\<close> (\<open>None\<close> is \<^verbatim>\<open>nil\<close>), \<open>getPlugins c\<close>
  describes the endpoints \<^verbatim>\<open>GetPlugins\<close> returns in cycle \<open>c\<close>: for each its devices and
  the result of its \<^verbatim>\<open>Start()\<close>.
\<close>

record env =
  failOnInitErrorFlag :: bool
  migStrategyFlag :: string
  nvmlInit :: int
  nvmlShutdown :: int
  newFSWatcher :: "string option"
  newMigStrategy :: "nat \<Rightarrow> string option"
  getPlugins :: "nat \<Rightarrow> (nat list \<times> string option) list"

text \<open>The case of the \<^verbatim>\<open>select\<close> that fires, with the value received.\<close>

datatype select_case =
    CaseStartError
  | CaseEvent Event
  | CaseError string
  | CaseSignal signal

text \<open>
  How a run ends: \<^verbatim>\<open>start\<close> returned (\<open>None\<close> is \<^verbatim>\<open>nil\<close>); it is in \<^verbatim>\<open>select {}\<close>; the
  schedule is used up and it waits in the \<^verbatim>\<open>select\<close> of the event loop, in cycle \<open>c\<close>
  with the given plugins and the given state of \<^verbatim>\<open>pluginStartError\<close>; or the schedule
  fires the receive from \<^verbatim>\<open>pluginStartError\<close> while that channel is open, which no run of
  the program does.
\<close>

datatype outcome =
    Returned "error option"
  | BlockedForever
  | Serving nat "plugin list" bool
  | NoSuchRun

text \<open>Where the body of the \<^verbatim>\<open>select\<close> goes next.\<close>

datatype decision = GotoRestart | Continue | BreakEvents | NotReady

subsection \<open>The restart cycle\<close>

text \<open>\<^verbatim>\<open>for _, p := range plugins { p.Stop() }\<close>\<close>

definition stopAll :: "plugin list \<Rightarrow> action list" where
  "stopAll plugins = map (\<lambda>p. PluginStop (ident p)) plugins"

text \<open>The slice \<^verbatim>\<open>migStrategy.GetPlugins(nvidiaCfg, cache)\<close> returns in cycle \<open>c\<close>.\<close>

definition mkPlugins :: "env \<Rightarrow> nat \<Rightarrow> plugin list" where
  "mkPlugins e c =
     map (\<lambda>(i, ds, r). \<lparr>ident = (c, i), Devices = ds, StartErr = r\<rparr>)
       (enumerate 0 (getPlugins e c))"

text \<open>
  The loop over the plugins (lines 133 to 149), from the plugins still to visit and the
  value of \<^verbatim>\<open>started\<close>: the trace, the final \<^verbatim>\<open>started\<close>, and whether the loop was left
  by \<^verbatim>\<open>goto events\<close> after \<^verbatim>\<open>close(pluginStartError)\<close>.
\<close>

fun startLoop :: "nat \<Rightarrow> plugin list \<Rightarrow> nat \<Rightarrow> action list \<times> nat \<times> bool" where
  "startLoop c [] started = ([], started, False)"
| "startLoop c (p # ps) started =
     (if length (Devices p) = 0 then
        (case startLoop c ps started of (tr, r) \<Rightarrow> (DevicesOf (ident p) # tr, r))
      else
        (case StartErr p of
           Some err \<Rightarrow>
             ([DevicesOf (ident p), PluginStart (ident p) False,
               Log ''Could not contact Kubelet, retrying. Did you enable the device plugin feature gate?'',
               Log ''You can check the prerequisites at: https://github.com/NVIDIA/k8s-device-plugin#prerequisites'',
               Log ''You can learn how to set the runtime at: https://github.com/NVIDIA/k8s-device-plugin#quick-start'',
               ClosePluginStartError c],
              started, True)
         | None \<Rightarrow>
             (case startLoop c ps (started + 1) of
                (tr, r) \<Rightarrow> (DevicesOf (ident p) # PluginStart (ident p) True # tr, r))))"

text \<open>
  From the label \<^verbatim>\<open>restart\<close> to the label \<^verbatim>\<open>events\<close> (lines 118 to 153), in cycle \<open>c\<close>
  with the plugins of the cycle before in \<open>plugins\<close>: the trace, and either the error
  returned or the new plugins and whether \<^verbatim>\<open>pluginStartError\<close> was closed.
\<close>

definition cycle :: "env \<Rightarrow> nat \<Rightarrow> plugin list \<Rightarrow> action list \<times> (error + plugin list \<times> bool)" where
  "cycle e c plugins =
     (let t1 = stopAll plugins @ [Log ''Retreiving plugins.'', NewMigStrategy (migStrategyFlag e)] in
      case newMigStrategy e c of
        Some err \<Rightarrow> (t1, Inl (MigStrategyFailed err))
      | None \<Rightarrow>
          (let plugins' = mkPlugins e c;
               t2 = t1 @ [GetPlugins c, MakePluginStartError c] in
           case startLoop c plugins' 0 of
             (tr, started, failed) \<Rightarrow>
               if failed then (t2 @ tr, Inr (plugins', True))
               else if started = 0 then
                 (t2 @ tr @ [Log ''No devices found. Waiting indefinitely.''], Inr (plugins', False))
               else (t2 @ tr, Inr (plugins', False))))"

subsection \<open>The event loop\<close>

text \<open>The body of the \<^verbatim>\<open>select\<close> (lines 159 to 192) for the case that fires.\<close>

definition on_select :: "plugin list \<Rightarrow> bool \<Rightarrow> select_case \<Rightarrow> action list \<times> decision" where
  "on_select plugins closed x =
     (case x of
        CaseStartError \<Rightarrow> (if closed then ([], GotoRestart) else ([], NotReady))
      | CaseEvent event \<Rightarrow>
          (if Name event = KubeletSocket \<and> Op event AND Create = Create then
             ([Logf ''inotify: %s created, restarting.'' (AStr KubeletSocket)], GotoRestart)
           else ([], Continue))
      | CaseError err \<Rightarrow> ([Logf ''inotify: %s'' (AStr err)], Continue)
      | CaseSignal s \<Rightarrow>
          (if s = SIGHUP then ([Log ''Received SIGHUP, restarting.''], GotoRestart)
           else (Logf ''Received signal %v, shutting down.'' (ASig s) # stopAll plugins,
                 BreakEvents)))"

text \<open>
  The loop at the label \<^verbatim>\<open>events\<close>, with \<^verbatim>\<open>goto restart\<close> running the next cycle and
  coming back to the loop.
\<close>

fun events :: "env \<Rightarrow> nat \<Rightarrow> plugin list \<Rightarrow> bool \<Rightarrow> select_case list \<Rightarrow> action list \<times> outcome" where
  "events e c plugins closed [] = ([], Serving c plugins closed)"
| "events e c plugins closed (x # xs) =
     (case on_select plugins closed x of
        (t, NotReady) \<Rightarrow> (t, NoSuchRun)
      | (t, BreakEvents) \<Rightarrow> (t, Returned None)
      | (t, Continue) \<Rightarrow>
          (case events e c plugins closed xs of (tr, out) \<Rightarrow> (t @ tr, out))
      | (t, GotoRestart) \<Rightarrow>
          (case cycle e (Suc c) plugins of
             (t1, Inl err) \<Rightarrow> (t @ t1, Returned (Some err))
           | (t1, Inr (plugins', closed')) \<Rightarrow>
               (case events e (Suc c) plugins' closed' xs of
                  (tr, out) \<Rightarrow> (t @ t1 @ tr, out))))"

text \<open>Lines 117 to 194: the first cycle, with \<^verbatim>\<open>plugins\<close> still \<^verbatim>\<open>nil\<close>, then the event loop.\<close>

definition supervise :: "env \<Rightarrow> select_case list \<Rightarrow> action list \<times> outcome" where
  "supervise e sched =
     (case cycle e 0 [] of
        (t1, Inl err) \<Rightarrow> (t1, Returned (Some err))
      | (t1, Inr (plugins, closed)) \<Rightarrow>
          (case events e 0 plugins closed sched of (tr, out) \<Rightarrow> (t1 @ tr, out)))"

subsection \<open>The function start\<close>

text \<open>The log lines after a failed \<^verbatim>\<open>Init\<close> (lines 85 to 89).\<close>

definition initFailedLogs :: "int \<Rightarrow> action list" where
  "initFailedLogs nvret =
     [Logf ''Failed to initialize NVML: %v.'' (ARet nvret),
      Log ''If this is a GPU node, did you set the docker default runtime to `nvidia`?'',
      Log ''You can check the prerequisites at: https://github.com/NVIDIA/k8s-device-plugin#prerequisites'',
      Log ''You can learn how to set the runtime at: https://github.com/NVIDIA/k8s-device-plugin#quick-start'',
      Log ''If this is not a GPU node, you should set up a toleration or nodeSelector to only deploy this plugin on GPU nodes'']"

text \<open>The deferred call of line 95, and all four deferred calls in the order they run.\<close>

definition deferNvml :: "env \<Rightarrow> action list" where
  "deferNvml e = [NvmlShutdown, Logf ''Shutdown of NVML returned:'' (ARet (nvmlShutdown e))]"

definition deferAll :: "env \<Rightarrow> action list" where
  "deferAll e = [RegisterStop, CacheStop, WatcherClose] @ deferNvml e"

text \<open>Lines 97 to 115, when the watcher is created.\<close>

definition bringUp :: "action list" where
  "bringUp =
     [Log ''Starting OS watcher.'', NewOSWatcher [SIGHUP, SIGINT, SIGTERM, SIGQUIT],
      LoadNvidiaConfig, NewDeviceCache, CacheStart, NewDeviceRegister, RegisterStart]"

definition start :: "env \<Rightarrow> select_case list \<Rightarrow> action list \<times> outcome" where
  "start e sched =
     (let t0 = [GoPprof, Log ''Loading NVML'', NvmlInit] in
      if nvmlInit e \<noteq> SUCCESS then
        (if failOnInitErrorFlag e
         then (t0 @ initFailedLogs (nvmlInit e), Returned (Some (InitNVMLFailed (nvmlInit e))))
         else (t0 @ initFailedLogs (nvmlInit e), BlockedForever))
      else
        (let t1 = t0 @ [Log ''Starting FS watcher.'', NewFSWatcher DevicePluginPath] in
         case newFSWatcher e of
           Some err \<Rightarrow> (t1 @ deferNvml e, Returned (Some (FSWatcherFailed err)))
         | None \<Rightarrow>
             (case supervise e sched of
                (tr, Returned r) \<Rightarrow> (t1 @ bringUp @ tr @ deferAll e, Returned r)
              | (tr, out) \<Rightarrow> (t1 @ bringUp @ tr, out))))"

text \<open>
  The \<^verbatim>\<open>Run\<close> function of \<^verbatim>\<open>rootCmd\<close> (lines 42 to 46): \<^verbatim>\<open>klog.Fatal\<close> on an error, which
  ends the process with a status that is not zero; otherwise it returns when \<^verbatim>\<open>start\<close>
  does.
\<close>

datatype process = Fatal error | Done | Running

definition Run :: "env \<Rightarrow> select_case list \<Rightarrow> process" where
  "Run e sched =
     (case snd (start e sched) of
        Returned (Some err) \<Rightarrow> Fatal err
      | Returned None \<Rightarrow> Done
      | _ \<Rightarrow> Running)"

subsection \<open>Reading a trace\<close>

text \<open>
  The endpoints that are live after a trace: those whose \<^verbatim>\<open>Start()\<close> returned \<^verbatim>\<open>nil\<close> and
  on which \<^verbatim>\<open>Stop()\<close> has not been called since.
\<close>

fun live_step :: "(nat \<times> nat) set \<Rightarrow> action \<Rightarrow> (nat \<times> nat) set" where
  "live_step L (PluginStart h ok) = (if ok then insert h L else L)"
| "live_step L (PluginStop h) = L - {h}"
| "live_step L _ = L"

definition live_from :: "(nat \<times> nat) set \<Rightarrow> action list \<Rightarrow> (nat \<times> nat) set" where
  "live_from L tr = foldl live_step L tr"

definition live :: "action list \<Rightarrow> (nat \<times> nat) set" where
  "live tr = live_from {} tr"

subsection \<open>Checking a property along a trace\<close>

text \<open>
  \<open>along step chk s tr\<close> runs an observer over the trace: it starts in state \<open>s\<close>, moves with
  \<open>step\<close>, and \<open>chk\<close> must hold for every action in the state reached before it.
\<close>

fun along :: "('s \<Rightarrow> action \<Rightarrow> 's) \<Rightarrow> ('s \<Rightarrow> action \<Rightarrow> bool) \<Rightarrow> 's \<Rightarrow> action list \<Rightarrow> bool" where
  "along step chk s [] = True"
| "along step chk s (a # tr) = (chk s a \<and> along step chk (step s a) tr)"

text \<open>
  Building a plugin set needs an empty live set, and an endpoint is started only while
  every live endpoint belongs to its own cycle.
\<close>

fun excl_ok :: "(nat \<times> nat) set \<Rightarrow> action \<Rightarrow> bool" where
  "excl_ok L (GetPlugins c) = (L = {})"
| "excl_ok L (PluginStart h ok) = (\<forall>h'\<in>L. fst h' = fst h)"
| "excl_ok L _ = True"

text \<open>The actions that only a restart cycle or the drain makes.\<close>

fun cycle_action :: "action \<Rightarrow> bool" where
  "cycle_action (PluginStop h) = True"
| "cycle_action (NewMigStrategy f) = True"
| "cycle_action (GetPlugins c) = True"
| "cycle_action (MakePluginStartError c) = True"
| "cycle_action (DevicesOf h) = True"
| "cycle_action (PluginStart h ok) = True"
| "cycle_action (ClosePluginStartError c) = True"
| "cycle_action _ = False"

subsection \<open>Two environments to run the model on\<close>

text \<open>
  NVML and the watcher come up, the strategy resolves, and every cycle has three
  endpoints with two, no and one device.  In \<open>exampleEnv\<close> every \<^verbatim>\<open>Start()\<close> succeeds, in
  \<open>failingEnv\<close> the \<^verbatim>\<open>Start()\<close> of the first endpoint fails.
\<close>

definition exampleEnv :: env where
  "exampleEnv =
     \<lparr>failOnInitErrorFlag = True, migStrategyFlag = ''none'', nvmlInit = 0, nvmlShutdown = 0,
      newFSWatcher = None, newMigStrategy = (\<lambda>c. None),
      getPlugins = (\<lambda>c. [([0, 1], None), ([], None), ([2], None)])\<rparr>"

definition failingEnv :: env where
  "failingEnv =
     \<lparr>failOnInitErrorFlag = True, migStrategyFlag = ''none'', nvmlInit = 0, nvmlShutdown = 0,
      newFSWatcher = None, newMigStrategy = (\<lambda>c. None),
      getPlugins = (\<lambda>c. [([0, 1], Some ''no kubelet''), ([], None), ([2], None)])\<rparr>"

text \<open>Everything \<^verbatim>\<open>start\<close> does before the first cycle when nothing fails.\<close>

definition boot :: "action list" where
  "boot =
     [GoPprof, Log ''Loading NVML'', NvmlInit, Log ''Starting FS watcher.'',
      NewFSWatcher DevicePluginPath] @ bringUp"

definition exampleBoot :: "action list" where
  "exampleBoot =
     boot @
     [Log ''Retreiving plugins.'', NewMigStrategy ''none'', GetPlugins 0, MakePluginStartError 0]"

text \<open>What the start loop does in cycle \<open>c\<close> of \<open>exampleEnv\<close>.\<close>

definition exampleStarts :: "nat \<Rightarrow> action list" where
  "exampleStarts c =
     [DevicesOf (c, 0), PluginStart (c, 0) True, DevicesOf (c, 1), DevicesOf (c, 2),
      PluginStart (c, 2) True]"

text \<open>The actions that count for \<^verbatim>\<open>started\<close>: a \<^verbatim>\<open>Start()\<close> that returned \<^verbatim>\<open>nil\<close>.\<close>

fun started_ok :: "action \<Rightarrow> bool" where
  "started_ok (PluginStart h ok) = ok"
| "started_ok _ = False"

section \<open>Running the event loop in two parts\<close>

lemma events_append:
  "events e c ps cl (pre @ post) =
     (case events e c ps cl pre of
        (tr, Serving c' ps' cl') \<Rightarrow>
          (case events e c' ps' cl' post of (tr', out) \<Rightarrow> (tr @ tr', out))
      | (tr, out) \<Rightarrow> (tr, out))"
proof (induction pre arbitrary: c ps cl)
  case Nil
  show ?case by (simp split: prod.splits)
next
  case (Cons x xs)
  show ?case
    by (simp add: Cons.IH split: prod.splits decision.splits sum.splits outcome.splits)
qed

lemma events_Serving:
  assumes "events e c ps cl pre = (t1, Serving c' ps' cl')"
  shows "events e c ps cl (pre @ post) =
           (t1 @ fst (events e c' ps' cl' post), snd (events e c' ps' cl' post))"
  using assms by (simp add: events_append split: prod.splits)

lemma supervise_Serving:
  assumes "supervise e pre = (t1, Serving c ps cl)"
  shows "supervise e (pre @ post) =
           (t1 @ fst (events e c ps cl post), snd (events e c ps cl post))"
  using assms
  by (auto simp: supervise_def events_append split: prod.splits sum.splits outcome.splits)

lemma start_ok:
  assumes "nvmlInit e = SUCCESS" and "newFSWatcher e = None"
  shows "start e sched =
           (boot @ fst (supervise e sched) @
              (case snd (supervise e sched) of Returned r \<Rightarrow> deferAll e | _ \<Rightarrow> []),
            snd (supervise e sched))"
  using assms by (simp add: start_def boot_def split: prod.splits outcome.splits)

lemma start_not_ok:
  assumes "\<not> (nvmlInit e = SUCCESS \<and> newFSWatcher e = None)"
  shows "(\<exists>r. snd (start e sched) = Returned r) \<or> snd (start e sched) = BlockedForever"
    and "\<forall>a\<in>set (fst (start e sched)). \<not> cycle_action a"
proof -
  show "(\<exists>r. snd (start e sched) = Returned r) \<or> snd (start e sched) = BlockedForever"
    using assms by (cases "newFSWatcher e") (simp_all add: start_def Let_def)
  show "\<forall>a\<in>set (fst (start e sched)). \<not> cycle_action a"
  proof (cases "nvmlInit e = SUCCESS")
    case True
    with assms obtain err where "newFSWatcher e = Some err" by auto
    with True show ?thesis by (simp add: start_def Let_def deferNvml_def)
  next
    case False
    then show ?thesis by (simp add: start_def Let_def initFailedLogs_def)
  qed
qed

lemma start_Serving_D:
  assumes "start e sched = (tr, Serving c ps cl)"
  shows "nvmlInit e = SUCCESS" and "newFSWatcher e = None"
    and "supervise e sched = (drop (length boot) tr, Serving c ps cl)"
    and "tr = boot @ drop (length boot) tr"
proof -
  have ok: "nvmlInit e = SUCCESS \<and> newFSWatcher e = None"
    using start_not_ok(1) [of e sched] assms by fastforce
  then show "nvmlInit e = SUCCESS" and "newFSWatcher e = None" by simp_all
  from ok have eq: "start e sched =
      (boot @ fst (supervise e sched) @
         (case snd (supervise e sched) of Returned r \<Rightarrow> deferAll e | _ \<Rightarrow> []),
       snd (supervise e sched))"
    by (simp add: start_ok)
  with assms have out: "snd (supervise e sched) = Serving c ps cl" by simp
  with eq assms have tr: "tr = boot @ fst (supervise e sched)" by simp
  then show "tr = boot @ drop (length boot) tr" by simp
  from tr out show "supervise e sched = (drop (length boot) tr, Serving c ps cl)"
    by (simp add: prod_eq_iff)
qed

lemma start_Serving:
  assumes "start e pre = (t1, Serving c ps cl)"
  shows "start e (pre @ post) =
           (case events e c ps cl post of
              (tr, Returned r) \<Rightarrow> (t1 @ tr @ deferAll e, Returned r)
            | (tr, out) \<Rightarrow> (t1 @ tr, out))"
proof -
  note d = start_Serving_D [OF assms]
  have "start e (pre @ post) =
      (case events e c ps cl post of
         (tr, Returned r) \<Rightarrow> ((boot @ drop (length boot) t1) @ tr @ deferAll e, Returned r)
       | (tr, out) \<Rightarrow> ((boot @ drop (length boot) t1) @ tr, out))"
    by (simp add: start_ok [OF d(1,2)] supervise_Serving [OF d(3)]
        split: prod.splits outcome.splits)
  then show ?thesis by (simp only: d(4) [symmetric])
qed

lemma start_Serving_step:
  assumes "start e pre = (t1, Serving c ps cl)"
    and "on_select ps cl x = (t, Continue)"
  shows "start e (pre @ x # rest) =
           (case events e c ps cl rest of
              (tr, Returned r) \<Rightarrow> (t1 @ t @ tr @ deferAll e, Returned r)
            | (tr, out) \<Rightarrow> (t1 @ t @ tr, out))"
  using assms(2) by (simp add: start_Serving [OF assms(1)] split: prod.splits outcome.splits)

lemma start_Serving_break:
  assumes "start e pre = (t1, Serving c ps cl)"
    and "on_select ps cl x = (t, BreakEvents)"
  shows "start e (pre @ x # rest) = (t1 @ t @ deferAll e, Returned None)"
  using assms(2) by (simp add: start_Serving [OF assms(1)])

lemma start_Serving_restart:
  assumes "start e pre = (t1, Serving c ps cl)"
    and "on_select ps cl x = (t, GotoRestart)"
  shows "start e (pre @ x # rest) =
           (case cycle e (Suc c) ps of
              (t2, Inl err) \<Rightarrow> (t1 @ t @ t2 @ deferAll e, Returned (Some err))
            | (t2, Inr (ps', cl')) \<Rightarrow>
                (case events e (Suc c) ps' cl' rest of
                   (tr, Returned r) \<Rightarrow> (t1 @ t @ t2 @ tr @ deferAll e, Returned r)
                 | (tr, out) \<Rightarrow> (t1 @ t @ t2 @ tr, out)))"
  using assms(2)
  by (simp add: start_Serving [OF assms(1)] split: prod.splits outcome.splits sum.splits)

lemma on_select_other_path:
  "Name ev \<noteq> KubeletSocket \<Longrightarrow> on_select ps cl (CaseEvent ev) = ([], Continue)"
  by (simp add: on_select_def)

lemma on_select_error:
  "on_select ps cl (CaseError err) = ([Logf ''inotify: %s'' (AStr err)], Continue)"
  by (simp add: on_select_def)

lemma exampleEnv_serving:
  "start exampleEnv [] =
     (exampleBoot @
      [DevicesOf (0, 0), PluginStart (0, 0) True, DevicesOf (0, 1), DevicesOf (0, 2),
       PluginStart (0, 2) True],
      Serving 0 (mkPlugins exampleEnv 0) False)"
  by (simp add: start_def supervise_def cycle_def mkPlugins_def exampleEnv_def exampleBoot_def
      boot_def stopAll_def SUCCESS_def)

section \<open>Events that do not restart\<close>

text \<open>
  C7.  While the supervisor waits in the event loop, a filesystem event whose path is not
  the kubelet socket changes nothing: no action is made, the supervisor waits in the same
  cycle with the same plugins, and the rest of the run is what it would have been without
  the event.  An error of the watcher adds its one log line and nothing else: the rest of
  the run and the way it ends are what they would have been without it.
\<close>

theorem other_path_and_watch_error_never_restart:
  assumes "start e pre = (t1, Serving c ps cl)"
    and "Name ev \<noteq> KubeletSocket"
  shows "start e (pre @ [CaseEvent ev]) = (t1, Serving c ps cl) \<and>
         start e (pre @ CaseEvent ev # rest) = start e (pre @ rest) \<and>
         start e (pre @ [CaseError err]) =
           (t1 @ [Logf ''inotify: %s'' (AStr err)], Serving c ps cl) \<and>
         (\<exists>t2 out. start e (pre @ rest) = (t1 @ t2, out) \<and>
            start e (pre @ CaseError err # rest) =
              (t1 @ Logf ''inotify: %s'' (AStr err) # t2, out))"
proof -
  note ev = start_Serving_step [OF assms(1) on_select_other_path [OF assms(2)]]
  note er = start_Serving_step [OF assms(1) on_select_error]
  note rs = start_Serving [OF assms(1), where post = rest]
  have "start e (pre @ [CaseEvent ev]) = (t1, Serving c ps cl)"
    by (simp add: ev)
  moreover have "start e (pre @ CaseEvent ev # rest) = start e (pre @ rest)"
    unfolding ev rs by (simp split: prod.splits outcome.splits)
  moreover have "start e (pre @ [CaseError err]) =
      (t1 @ [Logf ''inotify: %s'' (AStr err)], Serving c ps cl)"
    by (simp add: er)
  moreover have "\<exists>t2 out. start e (pre @ rest) = (t1 @ t2, out) \<and>
      start e (pre @ CaseError err # rest) = (t1 @ Logf ''inotify: %s'' (AStr err) # t2, out)"
    unfolding er rs by (simp split: prod.splits outcome.splits)
  ultimately show ?thesis by blast
qed

theorem other_path_and_watch_error_never_restart_witness:
  "Name \<lparr>Name = ''/var/lib/kubelet/device-plugins/nvidia.sock'', Op = Create\<rparr> \<noteq> KubeletSocket \<and>
   start exampleEnv
     ([] @ [CaseEvent \<lparr>Name = ''/var/lib/kubelet/device-plugins/nvidia.sock'', Op = Create\<rparr>]) =
   start exampleEnv [] \<and>
   snd (start exampleEnv ([] @ [CaseError ''overflow''])) = Serving 0 (mkPlugins exampleEnv 0) False"
proof -
  have h: "Name \<lparr>Name = ''/var/lib/kubelet/device-plugins/nvidia.sock'', Op = Create\<rparr> \<noteq> KubeletSocket"
    by (simp add: KubeletSocket_def)
  from other_path_and_watch_error_never_restart [OF exampleEnv_serving h, of "[]" "''overflow''"] h
  show ?thesis by (simp add: exampleEnv_serving)
qed

section \<open>Failure of the NVML initialisation\<close>


lemma start_init_failed:
  assumes "nvmlInit e \<noteq> SUCCESS"
  shows "start e sched =
           ([GoPprof, Log ''Loading NVML'', NvmlInit] @ initFailedLogs (nvmlInit e),
            if failOnInitErrorFlag e then Returned (Some (InitNVMLFailed (nvmlInit e)))
            else BlockedForever)"
  using assms by (simp add: start_def Let_def)

text \<open>
  C4.  When \<^verbatim>\<open>Init\<close> does not return \<^verbatim>\<open>SUCCESS\<close>: with \<^verbatim>\<open>failOnInitErrorFlag\<close> set,
  \<^verbatim>\<open>start\<close> returns the error of line 91 and \<^verbatim>\<open>Run\<close> ends the process through
  \<^verbatim>\<open>klog.Fatal\<close>; with the flag not set, \<^verbatim>\<open>start\<close> reaches \<^verbatim>\<open>select {}\<close> whatever would
  be delivered, never returns, and its trace holds no call of the strategy resolver, no
  call on a plugin, and no creation of the filesystem or signal watcher.
\<close>

theorem init_failure_fails_fast_or_blocks:
  assumes "nvmlInit e \<noteq> SUCCESS"
  shows "(failOnInitErrorFlag e \<longrightarrow>
            snd (start e sched) = Returned (Some (InitNVMLFailed (nvmlInit e))) \<and>
            Run e sched = Fatal (InitNVMLFailed (nvmlInit e))) \<and>
         (\<not> failOnInitErrorFlag e \<longrightarrow>
            start e sched =
              ([GoPprof, Log ''Loading NVML'', NvmlInit] @ initFailedLogs (nvmlInit e),
               BlockedForever) \<and>
            Run e sched = Running \<and>
            (\<forall>a\<in>set (fst (start e sched)).
               \<not> cycle_action a \<and> (\<forall>p. a \<noteq> NewFSWatcher p) \<and> (\<forall>ss. a \<noteq> NewOSWatcher ss)))"
  by (auto simp: start_init_failed [OF assms] Run_def initFailedLogs_def)

theorem init_failure_fails_fast_or_blocks_witness:
  "nvmlInit (exampleEnv\<lparr>nvmlInit := 9\<rparr>) \<noteq> SUCCESS \<and>
   snd (start (exampleEnv\<lparr>nvmlInit := 9\<rparr>) [CaseSignal SIGHUP]) =
     Returned (Some (InitNVMLFailed 9)) \<and>
   Run (exampleEnv\<lparr>nvmlInit := 9\<rparr>) [CaseSignal SIGHUP] = Fatal (InitNVMLFailed 9) \<and>
   snd (start (exampleEnv\<lparr>nvmlInit := 9, failOnInitErrorFlag := False\<rparr>) [CaseSignal SIGHUP]) =
     BlockedForever \<and>
   Run (exampleEnv\<lparr>nvmlInit := 9, failOnInitErrorFlag := False\<rparr>) [CaseSignal SIGHUP] = Running"
proof -
  have h1: "nvmlInit (exampleEnv\<lparr>nvmlInit := 9\<rparr>) \<noteq> SUCCESS"
    and h2: "nvmlInit (exampleEnv\<lparr>nvmlInit := 9, failOnInitErrorFlag := False\<rparr>) \<noteq> SUCCESS"
    by (simp_all add: SUCCESS_def)
  from init_failure_fails_fast_or_blocks [OF h1, of "[CaseSignal SIGHUP]"]
    init_failure_fails_fast_or_blocks [OF h2, of "[CaseSignal SIGHUP]"] h1
  show ?thesis by (simp add: exampleEnv_def)
qed

section \<open>The triggers of a restart\<close>


lemma create_bit: "(w AND Create = Create) = bit (w :: 32 word) 0"
  by (simp add: Create_def and_one_eq bit_0 odd_iff_mod_2_eq_one)

lemma restart_shape:
  assumes "start e pre = (t1, Serving c ps cl)"
  shows "\<exists>t2 out. \<forall>x t. on_select ps cl x = (t, GotoRestart) \<longrightarrow>
           start e (pre @ x # rest) =
             (t1 @ t @ stopAll ps @
                Log ''Retreiving plugins.'' # NewMigStrategy (migStrategyFlag e) # t2, out)"
proof -
  obtain t2 r where cyc: "cycle e (Suc c) ps = (t2, r)" by (cases "cycle e (Suc c) ps")
  then obtain t3 where t2: "t2 = stopAll ps @
      Log ''Retreiving plugins.'' # NewMigStrategy (migStrategyFlag e) # t3"
    by (auto simp: cycle_def Let_def split: option.splits prod.splits if_splits)
  show ?thesis
  proof (cases r)
    case (Inl err)
    have "start e (pre @ x # rest) =
        (t1 @ t @ stopAll ps @ Log ''Retreiving plugins.'' #
          NewMigStrategy (migStrategyFlag e) # (t3 @ deferAll e), Returned (Some err))"
      if "on_select ps cl x = (t, GotoRestart)" for x t
      by (simp add: start_Serving_restart [OF assms that] cyc Inl t2)
    then show ?thesis by blast
  next
    case (Inr pc)
    obtain ps' cl' where pc: "pc = (ps', cl')" by (cases pc)
    obtain tr out where ev: "events e (Suc c) ps' cl' rest = (tr, out)"
      by (cases "events e (Suc c) ps' cl' rest")
    have "start e (pre @ x # rest) =
        (t1 @ t @ stopAll ps @ Log ''Retreiving plugins.'' #
          NewMigStrategy (migStrategyFlag e) #
          (t3 @ tr @ (case out of Returned r \<Rightarrow> deferAll e | _ \<Rightarrow> [])), out)"
      if "on_select ps cl x = (t, GotoRestart)" for x t
      by (simp add: start_Serving_restart [OF assms that] cyc Inr pc ev t2 split: outcome.splits)
    then show ?thesis by blast
  qed
qed

lemma on_select_create:
  "on_select ps cl (CaseEvent \<lparr>Name = KubeletSocket, Op = Create OR m\<rparr>) =
     ([Logf ''inotify: %s created, restarting.'' (AStr KubeletSocket)], GotoRestart)"
proof -
  have "bit (Create OR m) 0" unfolding bit_or_iff by (simp add: Create_def)
  then have "(Create OR m) AND Create = Create" by (simp only: create_bit)
  then show ?thesis by (simp add: on_select_def)
qed

text \<open>
  C6.  From the same waiting state, \<^verbatim>\<open>SIGHUP\<close> and a filesystem event for the kubelet
  socket with the \<^verbatim>\<open>Create\<close> bit lead to the same run: after the one log line that names
  the trigger, both traces go on with the stop of every plugin of the current set, then
  the call of the resolver, then the same remaining actions, and both runs end the same
  way.
\<close>

theorem sighup_and_socket_create_restart_alike:
  assumes "start e pre = (t1, Serving c ps cl)"
    and "Name ev = KubeletSocket" and "Op ev AND Create = Create"
  shows "\<exists>t2 out.
           start e (pre @ CaseSignal SIGHUP # rest) =
             (t1 @ [Log ''Received SIGHUP, restarting.''] @ stopAll ps @
                Log ''Retreiving plugins.'' # NewMigStrategy (migStrategyFlag e) # t2, out) \<and>
           start e (pre @ CaseEvent ev # rest) =
             (t1 @ [Logf ''inotify: %s created, restarting.'' (AStr KubeletSocket)] @ stopAll ps @
                Log ''Retreiving plugins.'' # NewMigStrategy (migStrategyFlag e) # t2, out)"
proof -
  have hup: "on_select ps cl (CaseSignal SIGHUP) = ([Log ''Received SIGHUP, restarting.''], GotoRestart)"
    by (simp add: on_select_def)
  have cre: "on_select ps cl (CaseEvent ev) =
      ([Logf ''inotify: %s created, restarting.'' (AStr KubeletSocket)], GotoRestart)"
    using assms(2,3) by (simp add: on_select_def)
  from restart_shape [OF assms(1), of rest] hup cre show ?thesis by blast
qed

theorem sighup_and_socket_create_restart_alike_witness:
  "Name \<lparr>Name = KubeletSocket, Op = Create\<rparr> = KubeletSocket \<and>
   Op \<lparr>Name = KubeletSocket, Op = Create\<rparr> AND Create = Create \<and>
   snd (start exampleEnv ([] @ CaseSignal SIGHUP # [CaseSignal SIGTERM])) =
   snd (start exampleEnv ([] @ CaseEvent \<lparr>Name = KubeletSocket, Op = Create\<rparr> # [CaseSignal SIGTERM]))"
proof -
  have h1: "Name \<lparr>Name = KubeletSocket, Op = Create\<rparr> = KubeletSocket"
    and h2: "Op \<lparr>Name = KubeletSocket, Op = Create\<rparr> AND Create = Create"
    by simp_all
  from sighup_and_socket_create_restart_alike [OF exampleEnv_serving h1 h2, of "[CaseSignal SIGTERM]"]
  obtain t2 out where
    "snd (start exampleEnv ([] @ CaseSignal SIGHUP # [CaseSignal SIGTERM])) = out"
    "snd (start exampleEnv ([] @ CaseEvent \<lparr>Name = KubeletSocket, Op = Create\<rparr> # [CaseSignal SIGTERM])) = out"
    by fastforce
  with h1 h2 show ?thesis by simp
qed

text \<open>
  C10.  An event for the kubelet socket restarts exactly when bit 0 of its operation mask,
  the \<^verbatim>\<open>Create\<close> bit, is set.  Other bits do not matter: a mask \<open>Create OR m\<close>, which
  need not be \<open>Create\<close> (so \<open>Create OR Write\<close>), gives the very run that the mask \<open>Create\<close>
  gives, and that run is a restart.
\<close>

theorem create_bit_is_enough:
  "(snd (on_select ps cl (CaseEvent ev)) = GotoRestart \<longleftrightarrow>
      Name ev = KubeletSocket \<and> bit (Op ev) 0) \<and>
   Create OR Write \<noteq> Create \<and>
   (start e pre = (t1, Serving c ps cl) \<longrightarrow>
      (\<exists>t2 out. start e (pre @ CaseEvent \<lparr>Name = KubeletSocket, Op = Create OR m\<rparr> # rest) =
         (t1 @ [Logf ''inotify: %s created, restarting.'' (AStr KubeletSocket)] @ stopAll ps @
            Log ''Retreiving plugins.'' # NewMigStrategy (migStrategyFlag e) # t2, out) \<and>
       start e (pre @ CaseEvent \<lparr>Name = KubeletSocket, Op = Create\<rparr> # rest) =
         (t1 @ [Logf ''inotify: %s created, restarting.'' (AStr KubeletSocket)] @ stopAll ps @
            Log ''Retreiving plugins.'' # NewMigStrategy (migStrategyFlag e) # t2, out)))"
proof -
  have a: "snd (on_select ps cl (CaseEvent ev)) = GotoRestart \<longleftrightarrow>
      Name ev = KubeletSocket \<and> bit (Op ev) 0"
    by (simp add: on_select_def create_bit)
  have b: "Create OR Write \<noteq> Create" by (simp add: Create_def Write_def)
  have c: "\<exists>t2 out. start e (pre @ CaseEvent \<lparr>Name = KubeletSocket, Op = Create OR m\<rparr> # rest) =
         (t1 @ [Logf ''inotify: %s created, restarting.'' (AStr KubeletSocket)] @ stopAll ps @
            Log ''Retreiving plugins.'' # NewMigStrategy (migStrategyFlag e) # t2, out) \<and>
       start e (pre @ CaseEvent \<lparr>Name = KubeletSocket, Op = Create\<rparr> # rest) =
         (t1 @ [Logf ''inotify: %s created, restarting.'' (AStr KubeletSocket)] @ stopAll ps @
            Log ''Retreiving plugins.'' # NewMigStrategy (migStrategyFlag e) # t2, out)"
    if s: "start e pre = (t1, Serving c ps cl)"
  proof -
    have pure: "on_select ps cl (CaseEvent \<lparr>Name = KubeletSocket, Op = Create\<rparr>) =
        ([Logf ''inotify: %s created, restarting.'' (AStr KubeletSocket)], GotoRestart)"
      by (simp add: on_select_def)
    from restart_shape [OF s, of rest] on_select_create [of ps cl m] pure show ?thesis by blast
  qed
  from a b c show ?thesis by blast
qed

theorem create_bit_is_enough_witness:
  "snd (on_select [] False (CaseEvent \<lparr>Name = KubeletSocket, Op = Create OR Write\<rparr>)) = GotoRestart \<and>
   bit (Create OR Write) 0 \<and>
   snd (on_select [] False (CaseEvent \<lparr>Name = KubeletSocket, Op = Write\<rparr>)) \<noteq> GotoRestart \<and>
   snd (start exampleEnv ([] @ CaseEvent \<lparr>Name = KubeletSocket, Op = Create OR Write\<rparr> # [])) =
   snd (start exampleEnv ([] @ CaseEvent \<lparr>Name = KubeletSocket, Op = Create\<rparr> # []))"
proof -
  have w: "\<not> bit Write 0" "bit (Create OR Write) 0"
    by (simp_all add: Write_def Create_def bit_0 bit_or_iff)
  from create_bit_is_enough [where ps = "[]" and cl = False and
      ev = "\<lparr>Name = KubeletSocket, Op = Create OR Write\<rparr>"]
    create_bit_is_enough [where ps = "[]" and cl = False and
      ev = "\<lparr>Name = KubeletSocket, Op = Write\<rparr>"] w
  have a: "snd (on_select [] False (CaseEvent \<lparr>Name = KubeletSocket, Op = Create OR Write\<rparr>)) = GotoRestart"
    and b: "snd (on_select [] False (CaseEvent \<lparr>Name = KubeletSocket, Op = Write\<rparr>)) \<noteq> GotoRestart"
    by simp_all
  from create_bit_is_enough [where ps = "mkPlugins exampleEnv 0" and cl = False and e = exampleEnv
      and pre = "[]" and c = 0 and m = Write and rest = "[]"] exampleEnv_serving
  obtain out where
    "snd (start exampleEnv ([] @ CaseEvent \<lparr>Name = KubeletSocket, Op = Create OR Write\<rparr> # [])) = out"
    "snd (start exampleEnv ([] @ CaseEvent \<lparr>Name = KubeletSocket, Op = Create\<rparr> # [])) = out"
    by fastforce
  with a b w show ?thesis by simp
qed

section \<open>Failure of the strategy resolver\<close>


lemma resolverDown_serving:
  "start (exampleEnv\<lparr>newMigStrategy := (\<lambda>c. if c = 0 then None else Some ''unsupported'')\<rparr>) [] =
     (fst (start exampleEnv []),
      Serving 0 (mkPlugins exampleEnv 0) False)"
  by (simp add: start_def supervise_def cycle_def mkPlugins_def exampleEnv_def
      stopAll_def SUCCESS_def)

text \<open>
  C9.  When \<^verbatim>\<open>NewMigStrategy\<close> returns an error, in the first cycle or in the cycle a
  restart begins, \<^verbatim>\<open>start\<close> returns the error of line 127 at once: the trace ends with
  the call of the resolver followed by the deferred calls only, nothing that would still
  be delivered is looked at, and \<^verbatim>\<open>Run\<close> ends the process through \<^verbatim>\<open>klog.Fatal\<close>.
\<close>

theorem resolver_failure_is_fatal:
  "(nvmlInit e = SUCCESS \<and> newFSWatcher e = None \<and> newMigStrategy e 0 = Some err \<longrightarrow>
      start e sched =
        (boot @ [Log ''Retreiving plugins.'', NewMigStrategy (migStrategyFlag e)] @ deferAll e,
         Returned (Some (MigStrategyFailed err))) \<and>
      Run e sched = Fatal (MigStrategyFailed err)) \<and>
   (start e pre = (t1, Serving c ps cl) \<and> on_select ps cl x = (t, GotoRestart) \<and>
    newMigStrategy e (Suc c) = Some err \<longrightarrow>
      start e (pre @ x # rest) =
        (t1 @ t @ stopAll ps @
         [Log ''Retreiving plugins.'', NewMigStrategy (migStrategyFlag e)] @ deferAll e,
         Returned (Some (MigStrategyFailed err))) \<and>
      Run e (pre @ x # rest) = Fatal (MigStrategyFailed err))"
proof -
  have cyc: "cycle e k prev =
      (stopAll prev @ [Log ''Retreiving plugins.'', NewMigStrategy (migStrategyFlag e)],
       Inl (MigStrategyFailed err))"
    if "newMigStrategy e k = Some err" for k prev
    using that by (simp add: cycle_def)
  have first: "start e sched =
        (boot @ [Log ''Retreiving plugins.'', NewMigStrategy (migStrategyFlag e)] @ deferAll e,
         Returned (Some (MigStrategyFailed err)))"
    if "nvmlInit e = SUCCESS" "newFSWatcher e = None" "newMigStrategy e 0 = Some err"
    using that by (simp add: start_ok supervise_def cyc stopAll_def)
  have later: "start e (pre @ x # rest) =
        (t1 @ t @ stopAll ps @
         [Log ''Retreiving plugins.'', NewMigStrategy (migStrategyFlag e)] @ deferAll e,
         Returned (Some (MigStrategyFailed err)))"
    if "start e pre = (t1, Serving c ps cl)" "on_select ps cl x = (t, GotoRestart)"
      "newMigStrategy e (Suc c) = Some err"
    using that by (simp add: start_Serving_restart [OF that(1,2)] cyc)
  from first later show ?thesis by (auto simp: Run_def)
qed

theorem resolver_failure_is_fatal_witness:
  "Run (exampleEnv\<lparr>newMigStrategy := (\<lambda>c. Some ''unsupported'')\<rparr>) [CaseSignal SIGTERM] =
     Fatal (MigStrategyFailed ''unsupported'') \<and>
   Run (exampleEnv\<lparr>newMigStrategy := (\<lambda>c. if c = 0 then None else Some ''unsupported'')\<rparr>)
     ([] @ CaseSignal SIGHUP # [CaseSignal SIGTERM]) = Fatal (MigStrategyFailed ''unsupported'')"
proof -
  let ?e1 = "exampleEnv\<lparr>newMigStrategy := (\<lambda>c. Some ''unsupported'')\<rparr>"
  let ?e2 = "exampleEnv\<lparr>newMigStrategy := (\<lambda>c. if c = 0 then None else Some ''unsupported'')\<rparr>"
  have h1: "nvmlInit ?e1 = SUCCESS \<and> newFSWatcher ?e1 = None \<and> newMigStrategy ?e1 0 = Some ''unsupported''"
    by (simp add: exampleEnv_def SUCCESS_def)
  have h2: "on_select (mkPlugins exampleEnv 0) False (CaseSignal SIGHUP) =
      ([Log ''Received SIGHUP, restarting.''], GotoRestart) \<and> newMigStrategy ?e2 (Suc 0) = Some ''unsupported''"
    by (simp add: on_select_def)
  from resolver_failure_is_fatal [where e = ?e1 and err = "''unsupported''"
      and sched = "[CaseSignal SIGTERM]"] h1
    resolver_failure_is_fatal [where e = ?e2 and err = "''unsupported''" and pre = "[]" and c = 0
      and ps = "mkPlugins exampleEnv 0" and cl = False and x = "CaseSignal SIGHUP"
      and t = "[Log ''Received SIGHUP, restarting.'']" and rest = "[CaseSignal SIGTERM]"]
    h2 resolverDown_serving
  show ?thesis by simp
qed

section \<open>The live endpoints along a run\<close>


lemma along_append:
  "along step chk s (t1 @ t2) = (along step chk s t1 \<and> along step chk (foldl step s t1) t2)"
  by (induction t1 arbitrary: s) auto

lemma along_split:
  "along step chk s (t @ a # t') \<Longrightarrow> chk (foldl step s t) a"
  by (simp add: along_append)

lemma live_from_append: "live_from L (t1 @ t2) = live_from (live_from L t1) t2"
  by (simp add: live_from_def)

lemma live_from_stopAll: "live_from L (stopAll ps) = L - ident ` set ps"
  by (induction ps arbitrary: L) (auto simp: live_from_def stopAll_def)

lemma along_stopAll: "along live_step excl_ok L (stopAll ps)"
  by (induction ps arbitrary: L) (auto simp: stopAll_def)

lemma startLoop_excl:
  assumes "\<forall>p\<in>set ps. fst (ident p) = c" and "\<forall>h\<in>L. fst h = c"
  shows "along live_step excl_ok L (fst (startLoop c ps n)) \<and>
         live_from L (fst (startLoop c ps n)) \<subseteq> L \<union> ident ` set ps"
  using assms
proof (induction ps arbitrary: L n)
  case Nil
  then show ?case by (simp add: live_from_def)
next
  case (Cons p ps)
  show ?case
  proof (cases "Devices p = []")
    case True
    with Cons.IH [of L n] Cons.prems show ?thesis
      by (auto simp: live_from_def split: prod.splits)
  next
    case nonempty: False
    show ?thesis
    proof (cases "StartErr p")
      case None
      have "\<forall>h\<in>insert (ident p) L. fst h = c" using Cons.prems by simp
      with Cons.IH [of "insert (ident p) L" "n + 1"] Cons.prems nonempty None show ?thesis
        by (auto simp: live_from_def split: prod.splits)
    next
      case (Some err)
      with nonempty Cons.prems show ?thesis by (auto simp: live_from_def)
    qed
  qed
qed

lemma ident_mkPlugins: "p \<in> set (mkPlugins e c) \<Longrightarrow> fst (ident p) = c"
  by (auto simp: mkPlugins_def)

lemma cycle_Inr: "cycle e c prev = (tr, Inr (ps', cl')) \<Longrightarrow> ps' = mkPlugins e c"
  by (auto simp: cycle_def Let_def split: option.splits prod.splits if_splits)

lemma cycle_excl:
  assumes "L \<subseteq> ident ` set prev"
  shows "along live_step excl_ok L (fst (cycle e c prev)) \<and>
         (\<forall>ps' cl'. snd (cycle e c prev) = Inr (ps', cl') \<longrightarrow>
            live_from L (fst (cycle e c prev)) \<subseteq> ident ` set ps')"
proof -
  have empty: "live_from L (stopAll prev) = {}"
    using assms by (auto simp: live_from_stopAll)
  have pre: "live_from L (stopAll prev @ [Log ''Retreiving plugins.'', NewMigStrategy (migStrategyFlag e),
      GetPlugins c, MakePluginStartError c]) = {}"
    by (simp add: live_from_append empty) (simp add: live_from_def)
  have tags: "\<forall>p\<in>set (mkPlugins e c). fst (ident p) = c"
    by (simp add: ident_mkPlugins)
  note sl = startLoop_excl [OF tags, of "{}" 0, simplified]
  have empty': "foldl live_step L (stopAll prev) = {}"
    using empty by (simp add: live_from_def)
  have "along live_step excl_ok L (fst (cycle e c prev))"
    using sl empty'
    by (auto simp: cycle_def Let_def along_append along_stopAll
        split: option.splits prod.splits)
  moreover have "live_from L (fst (cycle e c prev)) \<subseteq> ident ` set ps'"
    if "snd (cycle e c prev) = Inr (ps', cl')" for ps' cl'
    using that sl pre
    by (auto simp: cycle_def Let_def live_from_append
        split: option.splits prod.splits if_splits)
       (auto simp: live_from_def)
  ultimately show ?thesis by blast
qed

lemma on_select_excl:
  "along live_step excl_ok L (fst (on_select ps cl x))"
  by (auto simp: on_select_def along_stopAll split: select_case.splits)

lemma on_select_live:
  "live_from L (fst (on_select ps cl x)) \<subseteq> L"
  by (auto simp: on_select_def live_from_def live_from_stopAll [unfolded live_from_def]
      split: select_case.splits)

lemma events_excl:
  assumes "L \<subseteq> ident ` set ps"
  shows "along live_step excl_ok L (fst (events e c ps cl sched)) \<and>
         (\<forall>tr c' ps' cl'. events e c ps cl sched = (tr, Serving c' ps' cl') \<longrightarrow>
            live_from L tr \<subseteq> ident ` set ps')"
  using assms
proof (induction sched arbitrary: c ps cl L)
  case Nil
  then show ?case by (simp add: live_from_def)
next
  case (Cons x xs)
  obtain t d where sel: "on_select ps cl x = (t, d)" by (cases "on_select ps cl x")
  have t_ok: "along live_step excl_ok L t"
    using on_select_excl [of L ps cl x] sel by simp
  have t_live: "live_from L t \<subseteq> ident ` set ps"
    using on_select_live [of L ps cl x] sel Cons.prems by auto
  show ?case
  proof (cases d)
    case Continue
    from Cons.IH [OF t_live, of c cl] show ?thesis
      using sel Continue t_ok
      by (auto simp: along_append live_from_append live_from_def [symmetric] split: prod.splits)
  next
    case GotoRestart
    obtain t1 r where cyc: "cycle e (Suc c) ps = (t1, r)" by (cases "cycle e (Suc c) ps")
    have t1_ok: "along live_step excl_ok (live_from L t) t1"
      using cycle_excl [OF t_live, of e "Suc c"] cyc by simp
    show ?thesis
    proof (cases r)
      case (Inl err)
      with sel GotoRestart cyc t_ok t1_ok show ?thesis
        by (simp add: along_append live_from_def)
    next
      case (Inr pc)
      obtain ps' cl' where pc: "pc = (ps', cl')" by (cases pc)
      have l1: "live_from (live_from L t) t1 \<subseteq> ident ` set ps'"
        using cycle_excl [OF t_live, of e "Suc c"] cyc Inr pc by simp
      from Cons.IH [OF l1, of "Suc c" cl'] show ?thesis
        using sel GotoRestart cyc Inr pc t_ok t1_ok
        by (auto simp: along_append live_from_append live_from_def [symmetric] split: prod.splits)
    qed
  next
    case BreakEvents
    with sel t_ok show ?thesis by simp
  next
    case NotReady
    with sel t_ok show ?thesis by simp
  qed
qed

lemma supervise_excl:
  "along live_step excl_ok {} (fst (supervise e sched)) \<and>
   (\<forall>tr c ps cl. supervise e sched = (tr, Serving c ps cl) \<longrightarrow> live_from {} tr \<subseteq> ident ` set ps)"
proof -
  obtain t1 r where cyc: "cycle e 0 [] = (t1, r)" by (cases "cycle e 0 []")
  have t1_ok: "along live_step excl_ok {} t1"
    using cycle_excl [of "{}" "[]" e 0] cyc by simp
  show ?thesis
  proof (cases r)
    case (Inl err)
    with cyc t1_ok show ?thesis by (simp add: supervise_def)
  next
    case (Inr pc)
    obtain ps' cl' where pc: "pc = (ps', cl')" by (cases pc)
    have l1: "live_from {} t1 \<subseteq> ident ` set ps'"
      using cycle_excl [of "{}" "[]" e 0] cyc Inr pc by simp
    from events_excl [OF l1, of e 0 cl' sched] show ?thesis
      using cyc Inr pc t1_ok
      by (auto simp: supervise_def along_append live_from_append live_from_def [symmetric]
          split: prod.splits)
  qed
qed

lemma boot_quiet: "\<forall>a\<in>set boot. \<not> cycle_action a"
  by (simp add: boot_def bringUp_def)

lemma deferAll_quiet: "\<forall>a\<in>set (deferAll e). \<not> cycle_action a"
  by (simp add: deferAll_def deferNvml_def)

lemma start_trace_cases:
  obtains (quiet) "\<forall>a\<in>set (fst (start e sched)). \<not> cycle_action a"
  | (run) t9 where "fst (start e sched) = boot @ fst (supervise e sched) @ t9"
      and "\<forall>a\<in>set t9. \<not> cycle_action a"
proof (cases "nvmlInit e = SUCCESS \<and> newFSWatcher e = None")
  case True
  let ?t9 = "case snd (supervise e sched) of Returned r \<Rightarrow> deferAll e | _ \<Rightarrow> []"
  have "fst (start e sched) = boot @ fst (supervise e sched) @ ?t9"
    using True by (simp add: start_ok)
  moreover have "\<forall>a\<in>set ?t9. \<not> cycle_action a"
    using deferAll_quiet [of e] by (simp split: outcome.splits)
  ultimately show ?thesis by (rule run)
next
  case False
  then show ?thesis using start_not_ok(2) [of e sched] by (intro quiet) simp
qed

lemma along_quiet:
  assumes "\<forall>a\<in>set t. chk s a \<and> step s a = s"
  shows "along step chk s t \<and> foldl step s t = s"
  using assms by (induction t) auto

lemma excl_quiet: "\<not> cycle_action a \<Longrightarrow> excl_ok L a \<and> live_step L a = L"
  by (cases a) auto

lemma excl_quiet_trace:
  assumes "\<forall>a\<in>set t. \<not> cycle_action a"
  shows "along live_step excl_ok L t" and "foldl live_step L t = L"
  using assms along_quiet [of t excl_ok L live_step] by (simp_all add: excl_quiet)

lemma start_excl: "along live_step excl_ok {} (fst (start e sched))"
proof (cases rule: start_trace_cases [of e sched])
  case quiet
  then show ?thesis by (rule excl_quiet_trace)
next
  case (run t9)
  show ?thesis
    using supervise_excl [of e sched]
    by (simp add: run(1) along_append excl_quiet_trace [OF boot_quiet] excl_quiet_trace [OF run(2)])
qed

lemma start_Serving_live:
  assumes "start e sched = (tr, Serving c ps cl)"
  shows "live tr \<subseteq> ident ` set ps"
proof -
  note d = start_Serving_D [OF assms]
  from supervise_excl [of e sched] d(3)
  have "live_from {} (drop (length boot) tr) \<subseteq> ident ` set ps" by simp
  moreover have "live tr = live_from (live_from {} boot) (drop (length boot) tr)"
    unfolding live_def live_from_append [symmetric] using d(4) by simp
  moreover have "live_from {} boot = {}"
    using excl_quiet_trace(2) [OF boot_quiet] by (simp add: live_from_def)
  ultimately show ?thesis by simp
qed

lemma events_Serving_mk:
  assumes "ps = mkPlugins e c" and "events e c ps cl sched = (tr, Serving c' ps' cl')"
  shows "ps' = mkPlugins e c'"
  using assms
proof (induction sched arbitrary: c ps cl tr)
  case Nil
  then show ?case by auto
next
  case (Cons x xs)
  obtain t d where sel: "on_select ps cl x = (t, d)" by (cases "on_select ps cl x")
  show ?case
  proof (cases d)
    case Continue
    with Cons.prems sel obtain tr0 where "events e c ps cl xs = (tr0, Serving c' ps' cl')"
      by (auto split: prod.splits)
    with Cons.IH [OF Cons.prems(1)] show ?thesis by blast
  next
    case GotoRestart
    with Cons.prems sel obtain t1 ps1 cl1 tr0 where cyc: "cycle e (Suc c) ps = (t1, Inr (ps1, cl1))"
      and ev: "events e (Suc c) ps1 cl1 xs = (tr0, Serving c' ps' cl')"
      by (auto split: prod.splits sum.splits)
    from cycle_Inr [OF cyc] Cons.IH [OF _ ev] show ?thesis by blast
  next
    case BreakEvents
    with Cons.prems sel show ?thesis by simp
  next
    case NotReady
    with Cons.prems sel show ?thesis by simp
  qed
qed

lemma start_Serving_mk:
  assumes "start e sched = (tr, Serving c ps cl)"
  shows "ps = mkPlugins e c"
proof -
  from start_Serving_D(3) [OF assms]
  obtain t1 ps1 cl1 tr0 where cyc: "cycle e 0 [] = (t1, Inr (ps1, cl1))"
    and ev: "events e 0 ps1 cl1 sched = (tr0, Serving c ps cl)"
    by (auto simp: supervise_def split: prod.splits sum.splits)
  from cycle_Inr [OF cyc] events_Serving_mk [OF _ ev] show ?thesis by blast
qed

lemma map_ident_mkPlugins:
  "map ident (mkPlugins e c) = map (Pair c) [0..<length (getPlugins e c)]"
proof -
  have "map ident (mkPlugins e c) = map (Pair c \<circ> fst) (enumerate 0 (getPlugins e c))"
    by (simp add: mkPlugins_def case_prod_beta comp_def)
  also have "\<dots> = map (Pair c) (map fst (enumerate 0 (getPlugins e c)))"
    by (simp only: map_map)
  also have "\<dots> = map (Pair c) [0..<0 + length (getPlugins e c)]"
    by (simp only: map_fst_enumerate)
  finally show ?thesis by simp
qed

lemma distinct_mkPlugins: "distinct (map ident (mkPlugins e c))"
  by (simp add: map_ident_mkPlugins distinct_map inj_on_def)

lemma count_stopAll:
  assumes "distinct (map ident ps)" and "h \<in> ident ` set ps"
  shows "count_list (stopAll ps) (PluginStop h) = 1"
  using assms by (induction ps) (auto simp: stopAll_def count_list_0_iff)

lemma live_step_sub: "live_step L a \<subseteq> (case a of PluginStart h ok \<Rightarrow> insert h L | _ \<Rightarrow> L)"
  by (cases a) auto

lemma live_step_single:
  assumes "excl_ok L a" and "\<forall>h\<in>L. \<forall>h'\<in>L. fst h = fst h'"
  shows "\<forall>h\<in>live_step L a. \<forall>h'\<in>live_step L a. fst h = fst h'"
proof (cases "\<exists>h ok. a = PluginStart h ok")
  case True
  then obtain h ok where a: "a = PluginStart h ok" by (elim exE)
  from assms(1) have "\<forall>h'\<in>L. fst h' = fst h" by (simp add: a)
  then have old: "fst h' = fst h" if "h' \<in> L" for h'
    using that by (rule bspec)
  have sub: "live_step L a \<subseteq> insert h L"
    using live_step_sub [of L a] by (simp add: a)
  have same: "fst h' = fst h" if "h' \<in> live_step L a" for h'
  proof -
    from that sub have "h' \<in> insert h L" by (rule subsetD [rotated])
    then have "h' = h \<or> h' \<in> L" by (simp only: insert_iff)
    then show ?thesis
    proof
      assume "h' = h"
      then show ?thesis by (rule arg_cong)
    next
      assume "h' \<in> L"
      then show ?thesis by (rule old)
    qed
  qed
  show ?thesis
  proof (intro ballI)
    fix h1 h2
    assume h1: "h1 \<in> live_step L a" and h2: "h2 \<in> live_step L a"
    from h1 have "fst h1 = fst h" by (rule same)
    also from h2 have "fst h = fst h2" by (rule same [symmetric])
    finally show "fst h1 = fst h2" .
  qed
next
  case False
  then have sub: "live_step L a \<subseteq> L" using live_step_sub [of L a] by (cases a) simp_all
  show ?thesis
  proof (intro ballI)
    fix h h'
    assume "h \<in> live_step L a"
    then have h: "h \<in> L" by (rule subsetD [OF sub])
    assume "h' \<in> live_step L a"
    then have h': "h' \<in> L" by (rule subsetD [OF sub])
    from h h' show "fst h = fst h'" by (rule assms(2) [rule_format])
  qed
qed

lemma live_single:
  assumes "along live_step excl_ok L (t @ t')" and "\<forall>h\<in>L. \<forall>h'\<in>L. fst h = fst h'"
  shows "\<forall>h\<in>foldl live_step L t. \<forall>h'\<in>foldl live_step L t. fst h = fst h'"
  using assms
proof (induction t arbitrary: L)
  case Nil
  show ?case unfolding foldl_Nil by (rule Nil.prems(2))
next
  case (Cons a t)
  from Cons.prems(1) have ok: "excl_ok L a" and rest: "along live_step excl_ok (live_step L a) (t @ t')"
    by simp_all
  show ?case
    unfolding foldl_Cons by (rule Cons.IH [OF rest live_step_single [OF ok Cons.prems(2)]])
qed

lemma cycle_begins:
  "\<exists>t. fst (cycle e c prev) =
     stopAll prev @ Log ''Retreiving plugins.'' # NewMigStrategy (migStrategyFlag e) # t"
proof (cases "newMigStrategy e c")
  case (Some err)
  then have "fst (cycle e c prev) =
      stopAll prev @ Log ''Retreiving plugins.'' # NewMigStrategy (migStrategyFlag e) # []"
    by (simp add: cycle_def)
  then show ?thesis by (rule exI)
next
  case None
  obtain tr started failed where sl: "startLoop c (mkPlugins e c) 0 = (tr, started, failed)"
    by (cases "startLoop c (mkPlugins e c) 0")
  have "fst (cycle e c prev) =
      stopAll prev @ Log ''Retreiving plugins.'' # NewMigStrategy (migStrategyFlag e) #
        (GetPlugins c # MakePluginStartError c # tr @
          (if \<not> failed \<and> started = 0 then [Log ''No devices found. Waiting indefinitely.''] else []))"
    by (simp add: cycle_def Let_def None sl)
  then show ?thesis by (rule exI)
qed

lemma start_live_invariant:
  assumes "fst (start e sched) = t @ a # t'"
  shows "\<forall>h\<in>live t. \<forall>h'\<in>live t. fst h = fst h'"
    and "excl_ok (live t) a"
proof -
  have al: "along live_step excl_ok {} (t @ a # t')"
    using start_excl [of e sched] assms by simp
  have "\<forall>h\<in>{}. \<forall>h'\<in>{}. fst h = fst (h' :: nat \<times> nat)" by (rule ballI) (rule emptyE)
  with al show "\<forall>h\<in>live t. \<forall>h'\<in>live t. fst h = fst h'"
    unfolding live_def live_from_def by (rule live_single)
  from along_split [OF al] show "excl_ok (live t) a"
    by (simp add: live_def live_from_def)
qed

lemma first_cycle_begins:
  assumes "nvmlInit e = SUCCESS" and "newFSWatcher e = None"
  shows "\<exists>t2. fst (start e sched) =
      boot @ stopAll [] @ Log ''Retreiving plugins.'' # NewMigStrategy (migStrategyFlag e) # t2"
proof -
  from cycle_begins [of e 0 "[]"] obtain t where
    c0: "fst (cycle e 0 []) =
      stopAll [] @ Log ''Retreiving plugins.'' # NewMigStrategy (migStrategyFlag e) # t"
    by blast
  obtain t0 r where cyc: "cycle e 0 [] = (t0, r)" by (cases "cycle e 0 []")
  have "\<exists>t'. fst (supervise e sched) = t0 @ t'"
  proof (cases r)
    case (Inl err)
    then have "fst (supervise e sched) = t0 @ []" by (simp add: supervise_def cyc)
    then show ?thesis by (rule exI)
  next
    case (Inr pc)
    obtain ps cl where pc: "pc = (ps, cl)" by (cases pc)
    obtain tr out where ev: "events e 0 ps cl sched = (tr, out)"
      by (cases "events e 0 ps cl sched")
    have "fst (supervise e sched) = t0 @ tr" by (simp add: supervise_def cyc Inr pc ev)
    then show ?thesis by (rule exI)
  qed
  then obtain t' where "fst (supervise e sched) = fst (cycle e 0 []) @ t'"
    by (auto simp: cyc)
  with c0 have "fst (start e sched) =
      boot @ stopAll [] @ Log ''Retreiving plugins.'' # NewMigStrategy (migStrategyFlag e) #
        (t @ t' @ (case snd (supervise e sched) of Returned r \<Rightarrow> deferAll e | _ \<Rightarrow> []))"
    by (simp add: start_ok [OF assms])
  then show ?thesis by (rule exI)
qed

lemma later_cycle_begins:
  assumes "start e pre = (t1, Serving c ps cl)" and "on_select ps cl x = (tx, GotoRestart)"
  shows "ps = mkPlugins e c"
    and "\<exists>t2. fst (start e (pre @ x # rest)) =
         t1 @ tx @ stopAll (mkPlugins e c) @
           Log ''Retreiving plugins.'' # NewMigStrategy (migStrategyFlag e) # t2"
proof -
  show mk: "ps = mkPlugins e c" by (rule start_Serving_mk [OF assms(1)])
  from restart_shape [OF assms(1), of rest] obtain t2 out where
    all: "\<forall>x t. on_select ps cl x = (t, GotoRestart) \<longrightarrow>
       start e (pre @ x # rest) =
       (t1 @ t @ stopAll ps @ Log ''Retreiving plugins.'' # NewMigStrategy (migStrategyFlag e) # t2, out)"
    by (elim exE)
  from all [rule_format, OF assms(2)] have
    "start e (pre @ x # rest) =
       (t1 @ tx @ stopAll ps @ Log ''Retreiving plugins.'' # NewMigStrategy (migStrategyFlag e) # t2, out)" .
  then have "fst (start e (pre @ x # rest)) =
      t1 @ tx @ stopAll (mkPlugins e c) @
        Log ''Retreiving plugins.'' # NewMigStrategy (migStrategyFlag e) # t2"
    by (simp add: mk)
  then show "\<exists>t2. fst (start e (pre @ x # rest)) =
         t1 @ tx @ stopAll (mkPlugins e c) @
           Log ''Retreiving plugins.'' # NewMigStrategy (migStrategyFlag e) # t2"
    by (rule exI)
qed

lemma exampleEnv_live: "live (fst (start exampleEnv [])) = {(0, 2), (0, 0)}"
  by (simp add: exampleEnv_serving exampleBoot_def boot_def bringUp_def live_def live_from_def)

lemma exampleEnv_sighup:
  "fst (start exampleEnv ([] @ CaseSignal SIGHUP # [])) =
     (exampleBoot @ exampleStarts 0 @
      [Log ''Received SIGHUP, restarting.'', PluginStop (0, 0), PluginStop (0, 1), PluginStop (0, 2),
       Log ''Retreiving plugins.'', NewMigStrategy ''none'']) @
     GetPlugins 1 # (MakePluginStartError 1 # exampleStarts 1)"
proof -
  have sel: "on_select (mkPlugins exampleEnv 0) False (CaseSignal SIGHUP) =
      ([Log ''Received SIGHUP, restarting.''], GotoRestart)"
    by (simp add: on_select_def)
  show ?thesis
    unfolding start_Serving_restart [OF exampleEnv_serving sel]
    by (simp add: exampleStarts_def cycle_def mkPlugins_def exampleEnv_def stopAll_def)
qed

text \<open>
  C1.  At every point of every run the live endpoints all belong to one cycle; when
  \<^verbatim>\<open>GetPlugins\<close> is called no endpoint is live, and an endpoint is started only while
  every live endpoint is of its own cycle.  The first cycle begins with the resolver
  right after the start-up: its stop pass is empty.  A restart from a waiting state of
  cycle \<open>c\<close> stops every endpoint of the plugin set of cycle \<open>c\<close>, in order and whether
  started or not, before it calls the resolver and builds the next set.
\<close>

theorem one_plugin_set_live_at_a_time:
  "(fst (start e sched) = t @ a # t' \<longrightarrow>
      (\<forall>h\<in>live t. \<forall>h'\<in>live t. fst h = fst h') \<and>
      (\<forall>k. a = GetPlugins k \<longrightarrow> live t = {}) \<and>
      (\<forall>h ok. a = PluginStart h ok \<longrightarrow> (\<forall>h'\<in>live t. fst h' = fst h))) \<and>
   (nvmlInit e = SUCCESS \<and> newFSWatcher e = None \<longrightarrow>
      (\<exists>t2. fst (start e sched) =
         boot @ stopAll [] @ Log ''Retreiving plugins.'' # NewMigStrategy (migStrategyFlag e) # t2) \<and>
      stopAll [] = []) \<and>
   (start e pre = (t1, Serving c ps cl) \<and> on_select ps cl x = (tx, GotoRestart) \<longrightarrow>
      ps = mkPlugins e c \<and>
      (\<exists>t2. fst (start e (pre @ x # rest)) =
         t1 @ tx @ stopAll (mkPlugins e c) @
           Log ''Retreiving plugins.'' # NewMigStrategy (migStrategyFlag e) # t2))"
proof (intro conjI impI allI)
  assume tr: "fst (start e sched) = t @ a # t'"
  show "\<forall>h\<in>live t. \<forall>h'\<in>live t. fst h = fst h'"
    by (rule start_live_invariant(1) [OF tr])
  show "live t = {}" if "a = GetPlugins k" for k
    using start_live_invariant(2) [OF tr] unfolding that by (simp only: excl_ok.simps)
  show "\<forall>h'\<in>live t. fst h' = fst h" if "a = PluginStart h ok" for h ok
    using start_live_invariant(2) [OF tr] unfolding that by (simp only: excl_ok.simps)
next
  assume "nvmlInit e = SUCCESS \<and> newFSWatcher e = None"
  then show "\<exists>t2. fst (start e sched) =
         boot @ stopAll [] @ Log ''Retreiving plugins.'' # NewMigStrategy (migStrategyFlag e) # t2"
    by (elim conjE) (rule first_cycle_begins)
next
  show "stopAll [] = []" by (simp add: stopAll_def)
next
  assume "start e pre = (t1, Serving c ps cl) \<and> on_select ps cl x = (tx, GotoRestart)"
  then show "ps = mkPlugins e c" by (elim conjE) (rule later_cycle_begins(1))
next
  assume "start e pre = (t1, Serving c ps cl) \<and> on_select ps cl x = (tx, GotoRestart)"
  then show "\<exists>t2. fst (start e (pre @ x # rest)) =
         t1 @ tx @ stopAll (mkPlugins e c) @
           Log ''Retreiving plugins.'' # NewMigStrategy (migStrategyFlag e) # t2"
    by (elim conjE) (rule later_cycle_begins(2))
qed

theorem one_plugin_set_live_at_a_time_witness:
  "fst (start exampleEnv ([] @ CaseSignal SIGHUP # [])) =
     (exampleBoot @ exampleStarts 0 @
      [Log ''Received SIGHUP, restarting.'', PluginStop (0, 0), PluginStop (0, 1), PluginStop (0, 2),
       Log ''Retreiving plugins.'', NewMigStrategy ''none'']) @
     GetPlugins 1 # (MakePluginStartError 1 # exampleStarts 1) \<and>
   live (exampleBoot @ exampleStarts 0 @
      [Log ''Received SIGHUP, restarting.'', PluginStop (0, 0), PluginStop (0, 1), PluginStop (0, 2),
       Log ''Retreiving plugins.'', NewMigStrategy ''none'']) = {} \<and>
   live (exampleBoot @ exampleStarts 0) = {(0, 2), (0, 0)}"
proof -
  note inv = one_plugin_set_live_at_a_time [THEN conjunct1, THEN mp, OF exampleEnv_sighup]
  from inv [THEN conjunct2, THEN conjunct1, rule_format, OF refl]
  have "live (exampleBoot @ exampleStarts 0 @
      [Log ''Received SIGHUP, restarting.'', PluginStop (0, 0), PluginStop (0, 1), PluginStop (0, 2),
       Log ''Retreiving plugins.'', NewMigStrategy ''none'']) = {}" .
  moreover have "live (exampleBoot @ exampleStarts 0) = {(0, 2), (0, 0)}"
    using exampleEnv_live by (simp add: exampleEnv_serving exampleStarts_def)
  ultimately show ?thesis using exampleEnv_sighup by (intro conjI)
qed

section \<open>The drain on a fatal signal\<close>


lemma count_quiet:
  assumes "\<forall>a\<in>set t. \<not> cycle_action a"
  shows "count_list t (PluginStop h) = 0"
  using assms by (auto simp: count_list_0_iff)

text \<open>
  C5.  When a signal other than \<^verbatim>\<open>SIGHUP\<close> is received in a waiting state, the run ends
  there whatever would still be delivered: one log line, \<^verbatim>\<open>Stop()\<close> on every plugin of the
  current set, the deferred calls, and \<^verbatim>\<open>start\<close> returns \<^verbatim>\<open>nil\<close>, so that \<^verbatim>\<open>Run\<close> returns
  too.  Every endpoint that was live is stopped exactly once in that drain, and none is
  live at the end.
\<close>

theorem fatal_signal_drains:
  assumes "start e pre = (t1, Serving c ps cl)" and "s \<noteq> SIGHUP"
  shows "start e (pre @ CaseSignal s # rest) =
           (t1 @ Logf ''Received signal %v, shutting down.'' (ASig s) # stopAll ps @ deferAll e,
            Returned None) \<and>
         (\<forall>h\<in>live t1.
            count_list (Logf ''Received signal %v, shutting down.'' (ASig s) # stopAll ps @ deferAll e)
              (PluginStop h) = 1) \<and>
         live (fst (start e (pre @ CaseSignal s # rest))) = {} \<and>
         Run e (pre @ CaseSignal s # rest) = Done"
proof -
  have sel: "on_select ps cl (CaseSignal s) =
      (Logf ''Received signal %v, shutting down.'' (ASig s) # stopAll ps, BreakEvents)"
    using assms(2) by (simp add: on_select_def)
  have run: "start e (pre @ CaseSignal s # rest) =
      (t1 @ Logf ''Received signal %v, shutting down.'' (ASig s) # stopAll ps @ deferAll e,
       Returned None)"
    by (simp add: start_Serving_break [OF assms(1) sel])
  have sub: "live t1 \<subseteq> ident ` set ps" by (rule start_Serving_live [OF assms(1)])
  have "distinct (map ident ps)"
    using start_Serving_mk [OF assms(1)] by (simp add: distinct_mkPlugins)
  then have once: "count_list (Logf ''Received signal %v, shutting down.'' (ASig s) # stopAll ps @ deferAll e)
      (PluginStop h) = 1" if "h \<in> live t1" for h
    using that sub by (auto simp: count_stopAll count_quiet [OF deferAll_quiet])
  have "live (t1 @ Logf ''Received signal %v, shutting down.'' (ASig s) # stopAll ps @ deferAll e) =
      live_from (live_from (live t1) (stopAll ps)) (deferAll e)"
    by (simp add: live_def live_from_def)
  also have "\<dots> = live_from {} (deferAll e)"
  proof -
    from sub have "live t1 - ident ` set ps = {}" by auto
    then show ?thesis by (simp only: live_from_stopAll)
  qed
  also have "\<dots> = {}"
    using excl_quiet_trace(2) [OF deferAll_quiet] by (simp add: live_from_def)
  finally have dead: "live (fst (start e (pre @ CaseSignal s # rest))) = {}"
    by (simp add: run)
  from run once dead show ?thesis by (simp add: Run_def)
qed

theorem fatal_signal_drains_witness:
  "SIGTERM \<noteq> SIGHUP \<and>
   live (fst (start exampleEnv [])) = {(0, 2), (0, 0)} \<and>
   count_list (Logf ''Received signal %v, shutting down.'' (ASig SIGTERM) #
       stopAll (mkPlugins exampleEnv 0) @ deferAll exampleEnv) (PluginStop (0, 2)) = 1 \<and>
   live (fst (start exampleEnv ([] @ CaseSignal SIGTERM # [CaseSignal SIGHUP]))) = {} \<and>
   Run exampleEnv ([] @ CaseSignal SIGTERM # [CaseSignal SIGHUP]) = Done"
proof -
  have h: "SIGTERM \<noteq> SIGHUP" by (simp add: SIGTERM_def SIGHUP_def)
  have s: "start exampleEnv [] = (fst (start exampleEnv []), Serving 0 (mkPlugins exampleEnv 0) False)"
    by (simp add: exampleEnv_serving)
  note r = fatal_signal_drains [OF s h, of "[CaseSignal SIGHUP]"]
  from r have "\<forall>h\<in>live (fst (start exampleEnv [])).
      count_list (Logf ''Received signal %v, shutting down.'' (ASig SIGTERM) #
        stopAll (mkPlugins exampleEnv 0) @ deferAll exampleEnv) (PluginStop h) = 1"
    by blast
  then have once: "count_list (Logf ''Received signal %v, shutting down.'' (ASig SIGTERM) #
      stopAll (mkPlugins exampleEnv 0) @ deferAll exampleEnv) (PluginStop (0, 2)) = 1"
    by (simp only: exampleEnv_live) blast
  from r have "live (fst (start exampleEnv ([] @ CaseSignal SIGTERM # [CaseSignal SIGHUP]))) = {}"
    and "Run exampleEnv ([] @ CaseSignal SIGTERM # [CaseSignal SIGHUP]) = Done"
    by blast+
  with h once exampleEnv_live show ?thesis by blast
qed

section \<open>The start loop\<close>

lemma startLoop_count:
  "fst (snd (startLoop c ps n)) = n + length (filter started_ok (fst (startLoop c ps n)))"
proof (induction ps arbitrary: n)
  case Nil
  show ?case by simp
next
  case (Cons p ps)
  show ?case
  proof (cases "Devices p = []")
    case True
    with Cons.IH [of n] show ?thesis by (simp add: case_prod_beta)
  next
    case False
    with Cons.IH [of "n + 1"] show ?thesis by (cases "StartErr p") (simp_all add: case_prod_beta)
  qed
qed

lemma startLoop_starts:
  assumes "PluginStart h ok \<in> set (fst (startLoop c ps n))"
  shows "\<exists>p\<in>set ps. ident p = h \<and> Devices p \<noteq> []"
  using assms
proof (induction ps arbitrary: n)
  case Nil
  then show ?case by simp
next
  case (Cons p ps)
  show ?case
  proof (cases "Devices p = []")
    case True
    with Cons.prems have "PluginStart h ok \<in> set (fst (startLoop c ps n))"
      by (simp add: case_prod_beta)
    from Cons.IH [OF this] show ?thesis by auto
  next
    case nonempty: False
    show ?thesis
    proof (cases "StartErr p")
      case (Some err)
      with Cons.prems nonempty show ?thesis by auto
    next
      case None
      with Cons.prems nonempty
      have "h = ident p \<or> PluginStart h ok \<in> set (fst (startLoop c ps (n + 1)))"
        by (auto simp: case_prod_beta)
      then show ?thesis
      proof
        assume "h = ident p"
        with nonempty show ?thesis by auto
      next
        assume "PluginStart h ok \<in> set (fst (startLoop c ps (n + 1)))"
        from Cons.IH [OF this] show ?thesis by auto
      qed
    qed
  qed
qed

lemma stopAll_no_start: "PluginStart h ok \<notin> set (stopAll ps)"
  by (auto simp: stopAll_def)

lemma cycle_starts:
  assumes "PluginStart h ok \<in> set (fst (cycle e c prev))"
  shows "\<exists>p\<in>set (mkPlugins e c). ident p = h \<and> Devices p \<noteq> []"
proof (cases "newMigStrategy e c")
  case (Some err)
  with assms show ?thesis by (simp add: cycle_def stopAll_no_start)
next
  case None
  obtain tr started failed where sl: "startLoop c (mkPlugins e c) 0 = (tr, started, failed)"
    by (cases "startLoop c (mkPlugins e c) 0")
  from assms have "PluginStart h ok \<in> set tr"
    by (simp add: cycle_def Let_def None sl stopAll_no_start split: if_splits)
  then have "PluginStart h ok \<in> set (fst (startLoop c (mkPlugins e c) 0))" by (simp add: sl)
  then show ?thesis by (rule startLoop_starts)
qed

lemma on_select_no_start: "PluginStart h ok \<notin> set (fst (on_select ps cl x))"
  by (simp add: on_select_def stopAll_no_start split: select_case.splits)

lemma events_trace_cases:
  assumes "a \<in> set (fst (events e c ps cl sched))"
  shows "(\<exists>ps' cl' x. a \<in> set (fst (on_select ps' cl' x))) \<or>
         (\<exists>c' prev. c < c' \<and> a \<in> set (fst (cycle e c' prev)))"
  using assms
proof (induction sched arbitrary: c ps cl)
  case Nil
  then show ?case by simp
next
  case (Cons x xs)
  obtain t d where sel: "on_select ps cl x = (t, d)" by (cases "on_select ps cl x")
  have in_t: ?case if "a \<in> set t"
  proof -
    from that sel have "a \<in> set (fst (on_select ps cl x))" by simp
    then show ?thesis by blast
  qed
  show ?case
  proof (cases d)
    case Continue
    with Cons.prems sel have "a \<in> set t \<or> a \<in> set (fst (events e c ps cl xs))"
      by (auto split: prod.splits)
    then show ?thesis
    proof
      assume "a \<in> set t" then show ?thesis by (rule in_t)
    next
      assume "a \<in> set (fst (events e c ps cl xs))"
      from Cons.IH [OF this] show ?thesis .
    qed
  next
    case GotoRestart
    obtain t1 r where cyc: "cycle e (Suc c) ps = (t1, r)" by (cases "cycle e (Suc c) ps")
    have in_t1: ?thesis if "a \<in> set t1"
    proof -
      from that cyc have "c < Suc c \<and> a \<in> set (fst (cycle e (Suc c) ps))" by simp
      then show ?thesis by blast
    qed
    show ?thesis
    proof (cases r)
      case (Inl err)
      with Cons.prems sel GotoRestart cyc have "a \<in> set t \<or> a \<in> set t1" by auto
      then show ?thesis using in_t in_t1 by blast
    next
      case (Inr pc)
      obtain ps' cl' where pc: "pc = (ps', cl')" by (cases pc)
      from Cons.prems sel GotoRestart cyc Inr pc
      have "a \<in> set t \<or> a \<in> set t1 \<or> a \<in> set (fst (events e (Suc c) ps' cl' xs))"
        by (auto split: prod.splits)
      moreover have ?thesis if "a \<in> set (fst (events e (Suc c) ps' cl' xs))"
      proof -
        from Cons.IH [OF that] show ?thesis
          by (elim disjE exE conjE) (blast, metis less_SucI Suc_lessD)
      qed
      ultimately show ?thesis using in_t in_t1 by blast
    qed
  next
    case BreakEvents
    with Cons.prems sel have "a \<in> set t" by simp
    then show ?thesis by (rule in_t)
  next
    case NotReady
    with Cons.prems sel have "a \<in> set t" by simp
    then show ?thesis by (rule in_t)
  qed
qed

lemma supervise_trace_cases:
  assumes "a \<in> set (fst (supervise e sched))"
  shows "(\<exists>ps' cl' x. a \<in> set (fst (on_select ps' cl' x))) \<or>
         (\<exists>c' prev. a \<in> set (fst (cycle e c' prev)))"
proof -
  obtain t1 r where cyc: "cycle e 0 [] = (t1, r)" by (cases "cycle e 0 []")
  have in_t1: ?thesis if "a \<in> set t1"
  proof -
    from that cyc have "a \<in> set (fst (cycle e 0 []))" by simp
    then show ?thesis by blast
  qed
  show ?thesis
  proof (cases r)
    case (Inl err)
    with assms cyc have "a \<in> set t1" by (simp add: supervise_def)
    then show ?thesis by (rule in_t1)
  next
    case (Inr pc)
    obtain ps' cl' where pc: "pc = (ps', cl')" by (cases pc)
    from assms cyc Inr pc have "a \<in> set t1 \<or> a \<in> set (fst (events e 0 ps' cl' sched))"
      by (auto simp: supervise_def split: prod.splits)
    then show ?thesis
    proof
      assume "a \<in> set t1" then show ?thesis by (rule in_t1)
    next
      assume "a \<in> set (fst (events e 0 ps' cl' sched))"
      from events_trace_cases [OF this] show ?thesis by blast
    qed
  qed
qed

lemma start_starts:
  assumes "PluginStart h ok \<in> set (fst (start e sched))"
  shows "\<exists>p\<in>set (mkPlugins e (fst h)). ident p = h \<and> Devices p \<noteq> []"
proof -
  have "PluginStart h ok \<in> set (fst (supervise e sched))"
  proof (cases rule: start_trace_cases [of e sched])
    case quiet
    with assms have "\<not> cycle_action (PluginStart h ok)" by (rule bspec [rotated])
    then show ?thesis by simp
  next
    case (run t9)
    from run(2) have "PluginStart h ok \<notin> set t9" by auto
    moreover from boot_quiet have "PluginStart h ok \<notin> set boot" by auto
    ultimately show ?thesis using assms run(1) by simp
  qed
  from supervise_trace_cases [OF this] on_select_no_start
  obtain c' prev where "PluginStart h ok \<in> set (fst (cycle e c' prev))" by blast
  from cycle_starts [OF this] obtain p where p: "p \<in> set (mkPlugins e c')" "ident p = h" "Devices p \<noteq> []"
    by blast
  from ident_mkPlugins [OF p(1)] p(2) have "c' = fst h" by simp
  with p show ?thesis by blast
qed

lemma mkPlugins_nth:
  assumes "i < length (getPlugins e c)"
  shows "mkPlugins e c ! i =
           \<lparr>ident = (c, i), Devices = fst (getPlugins e c ! i), StartErr = snd (getPlugins e c ! i)\<rparr>"
  using assms by (simp add: mkPlugins_def nth_enumerate_eq case_prod_beta)

lemma mkPlugins_member:
  assumes "p \<in> set (mkPlugins e c)" and "ident p = (c, i)"
  shows "i < length (getPlugins e c) \<and> Devices p = fst (getPlugins e c ! i)"
proof -
  have len: "length (mkPlugins e c) = length (getPlugins e c)" by (simp add: mkPlugins_def)
  from assms(1) obtain j where j: "j < length (getPlugins e c)" and p: "p = mkPlugins e c ! j"
    by (auto simp: in_set_conv_nth len)
  from p assms(2) mkPlugins_nth [OF j] have "j = i" by simp
  with j p mkPlugins_nth [OF j] show ?thesis by simp
qed

text \<open>
  C8.  An endpoint that owns no device is never started: whatever is delivered, no run
  holds a call of \<^verbatim>\<open>Start()\<close> on it.  The counter \<^verbatim>\<open>started\<close> after the loop is the number
  of \<^verbatim>\<open>Start()\<close> calls of the loop that returned \<^verbatim>\<open>nil\<close>, so a skipped endpoint adds
  nothing to it.  With three endpoints owning two, no and one device and no \<^verbatim>\<open>Start()\<close>
  failing, the loop starts the first and the third, only asks the second for its devices,
  and ends with \<^verbatim>\<open>started\<close> equal to 2.
\<close>

theorem zero_device_endpoints_are_skipped:
  "(i < length (getPlugins e c) \<and> fst (getPlugins e c ! i) = [] \<longrightarrow>
      PluginStart (c, i) ok \<notin> set (fst (start e sched))) \<and>
   fst (snd (startLoop c ps n)) = n + length (filter started_ok (fst (startLoop c ps n))) \<and>
   (getPlugins e c = [([d1, d2], None), ([], None), ([d3], None)] \<longrightarrow>
      startLoop c (mkPlugins e c) 0 =
        ([DevicesOf (c, 0), PluginStart (c, 0) True, DevicesOf (c, 1), DevicesOf (c, 2),
          PluginStart (c, 2) True], 2, False))"
proof (intro conjI impI)
  assume zero: "i < length (getPlugins e c) \<and> fst (getPlugins e c ! i) = []"
  show "PluginStart (c, i) ok \<notin> set (fst (start e sched))"
  proof
    assume "PluginStart (c, i) ok \<in> set (fst (start e sched))"
    from start_starts [OF this] obtain p where p: "p \<in> set (mkPlugins e c)"
      and id: "ident p = (c, i)" and dev: "Devices p \<noteq> []"
      by auto
    from mkPlugins_member [OF p id] have "Devices p = fst (getPlugins e c ! i)" by simp
    with zero dev show False by simp
  qed
next
  show "fst (snd (startLoop c ps n)) = n + length (filter started_ok (fst (startLoop c ps n)))"
    by (rule startLoop_count)
next
  assume "getPlugins e c = [([d1, d2], None), ([], None), ([d3], None)]"
  then show "startLoop c (mkPlugins e c) 0 =
        ([DevicesOf (c, 0), PluginStart (c, 0) True, DevicesOf (c, 1), DevicesOf (c, 2),
          PluginStart (c, 2) True], 2, False)"
    by (simp add: mkPlugins_def)
qed

theorem zero_device_endpoints_are_skipped_witness:
  "1 < length (getPlugins exampleEnv 0) \<and> fst (getPlugins exampleEnv 0 ! 1) = [] \<and>
   PluginStart (0, 1) True \<notin> set (fst (start exampleEnv [CaseSignal SIGHUP, CaseSignal SIGTERM])) \<and>
   startLoop 0 (mkPlugins exampleEnv 0) 0 = (exampleStarts 0, 2, False)"
proof -
  have h: "1 < length (getPlugins exampleEnv 0) \<and> fst (getPlugins exampleEnv 0 ! 1) = []"
    and g: "getPlugins exampleEnv 0 = [([0, 1], None), ([], None), ([2], None)]"
    by (simp_all add: exampleEnv_def)
  note z = zero_device_endpoints_are_skipped [where e = exampleEnv and c = 0 and i = 1 and ok = True
      and sched = "[CaseSignal SIGHUP, CaseSignal SIGTERM]" and ps = "[]" and n = 0
      and ?d1.0 = 0 and ?d2.0 = 1 and ?d3.0 = 2]
  from z [THEN conjunct1, THEN mp, OF h]
  have a: "PluginStart (0, 1) True \<notin> set (fst (start exampleEnv [CaseSignal SIGHUP, CaseSignal SIGTERM]))" .
  from z [THEN conjunct2, THEN conjunct2, THEN mp, OF g]
  have b: "startLoop 0 (mkPlugins exampleEnv 0) 0 = (exampleStarts 0, 2, False)"
    by (simp add: exampleStarts_def)
  from h a b show ?thesis by (intro conjI) simp_all
qed

end
